theory Spec2Isabelle
  imports Main "HOL-Library.Word" "HOL-Library.Multiset" "HOL-Library.Sublist"
begin

section \<open>Data model\<close>

text \<open>
  Byte slices are modelled by their visible contents (\<open>len(s)\<close> is the list length);
  \<open>int64\<close> offsets are 64-bit words, so \<open>+\<close> wraps as it does in Go.
\<close>

type_synonym byte = "8 word"
type_synonym bytes = "byte list"

text \<open>
  Go \<open>error\<close> values. \<open>Errorf fmt e\<close> is \<open>fmt.Errorf(fmt, e)\<close> with a \<open>%w\<close> verb,
  which wraps \<open>e\<close>; \<open>None :: error option\<close> is the \<open>nil\<close> error.
\<close>

datatype error = EOF | Err string | Errorf string error | Canceled | DeadlineExceeded

text \<open>\<open>errors.Is(err, io.EOF)\<close>: follows the chain of wrapped errors; false on \<open>nil\<close>.\<close>

fun unwraps_to_EOF :: "error \<Rightarrow> bool" where
  "unwraps_to_EOF EOF = True"
| "unwraps_to_EOF (Errorf f e) = unwraps_to_EOF e"
| "unwraps_to_EOF (Err s) = False"
| "unwraps_to_EOF Canceled = False"
| "unwraps_to_EOF DeadlineExceeded = False"

fun is_EOF :: "error option \<Rightarrow> bool" where
  "is_EOF None = False"
| "is_EOF (Some e) = unwraps_to_EOF e"

text \<open>\<open>type Region struct { Data []byte; Off int64 }\<close>\<close>

record Region =
  Data :: bytes
  Off :: "64 word"

section \<open>BufferPool (io/buffer.go)\<close>

text \<open>
  \<open>pooledBuffer\<close> holds a buffered channel of byte slices and the buffer size.
  The channel is its queued contents (oldest first) together with its capacity.
\<close>

record pooledBuffer =
  pb_pool :: "bytes list"
  pb_cap :: nat
  pb_size :: int

text \<open>
  \<open>NewBuffer(bufferSize, poolSize)\<close>. \<open>make(chan []byte, poolSize)\<close> panics on a negative
  capacity (\<open>None\<close>).
\<close>

definition NewBuffer :: "int \<Rightarrow> int \<Rightarrow> pooledBuffer option" where
  "NewBuffer bufferSize poolSize =
     (if poolSize < 0 then None
      else Some \<lparr>pb_pool = [], pb_cap = nat poolSize, pb_size = bufferSize\<rparr>)"

text \<open>
  \<open>Put\<close>: a \<open>select\<close> with a send case and a \<open>default\<close>; the send is taken when the
  channel has room, otherwise the buffer is dropped.
\<close>

definition Put :: "pooledBuffer \<Rightarrow> bytes \<Rightarrow> pooledBuffer" where
  "Put b buff =
     (if length (pb_pool b) < pb_cap b then b\<lparr>pb_pool := pb_pool b @ [buff]\<rparr> else b)"

text \<open>
  \<open>Get\<close>: a \<open>select\<close> with a receive case and a \<open>default\<close> that runs
  \<open>make([]byte, b.size)\<close>, which panics on a negative size (\<open>None\<close>).
\<close>

definition Get :: "pooledBuffer \<Rightarrow> (bytes \<times> pooledBuffer) option" where
  "Get b =
     (case pb_pool b of
        buff # rest \<Rightarrow> Some (buff, b\<lparr>pb_pool := rest\<rparr>)
      | [] \<Rightarrow> if pb_size b < 0 then None else Some (replicate (nat (pb_size b)) 0, b))"

text \<open>A caller's sequence of pool operations, and the buffers its \<open>Get\<close>s return.\<close>

datatype pool_op = OpGet | OpPut bytes

fun run_ops :: "pooledBuffer \<Rightarrow> pool_op list \<Rightarrow> bytes list option" where
  "run_ops b [] = Some []"
| "run_ops b (OpPut buff # ops) = run_ops (Put b buff) ops"
| "run_ops b (OpGet # ops) =
     (case Get b of
        None \<Rightarrow> None
      | Some (buff, b') \<Rightarrow>
          (case run_ops b' ops of None \<Rightarrow> None | Some outs \<Rightarrow> Some (buff # outs)))"

definition run_new :: "int \<Rightarrow> int \<Rightarrow> pool_op list \<Rightarrow> bytes list option" where
  "run_new bufferSize poolSize ops =
     (case NewBuffer bufferSize poolSize of None \<Rightarrow> None | Some b \<Rightarrow> run_ops b ops)"

section \<open>Positional writes (io/write.go)\<close>

text \<open>
  An \<open>io.WriterAt\<close> is an external collaborator. It is modelled by the replies
  \<open>(n, err)\<close> it gives to the successive \<open>WriteAt\<close> calls made on it; a run that needs
  a reply the writer has not given yet is still waiting inside \<open>WriteAt\<close>.
\<close>

type_synonym write_reply = "int \<times> error option"
type_synonym writer = "write_reply list"
type_synonym write_call = "bytes \<times> 64 word"

datatype write_result = Flushed | Failed error | SliceOutOfRange | InWriteAt

text \<open>
  The write loop shared by \<open>sink.Read\<close> and by the task of \<open>pool.Read\<close>:
  \<^verbatim>\<open>
  written := 0
  for written < len(data.Data) {
      n, err := w.WriteAt(data.Data[written:], data.Off)
      if err != nil { errs <- ...; return }
      written += n
  }
  \<close>
  The result lists the \<open>WriteAt\<close> calls the writer has answered (slice passed, offset
  passed), how the loop ended, and the replies the writer has left. \<open>data.Data[written:]\<close> panics for a
  negative \<open>written\<close>.
\<close>

fun write_region :: "Region \<Rightarrow> int \<Rightarrow> writer \<Rightarrow> write_call list \<times> write_result \<times> writer" where
  "write_region data written [] =
     (if written < int (length (Data data))
      then (if written < 0 then ([], SliceOutOfRange, []) else ([], InWriteAt, []))
      else ([], Flushed, []))"
| "write_region data written ((n, err) # w) =
     (if written < int (length (Data data)) then
        (if written < 0 then ([], SliceOutOfRange, (n, err) # w)
         else
           (case err of
              Some e \<Rightarrow> ([(drop (nat written) (Data data), Off data)], Failed e, w)
            | None \<Rightarrow>
                (case write_region data (written + n) w of
                   (calls, res, w') \<Rightarrow>
                     ((drop (nat written) (Data data), Off data) # calls, res, w'))))
      else ([], Flushed, (n, err) # w))"

text \<open>
  What a stage receives on its input channel: a Region together with the value of
  \<open>ctx.Err() != nil\<close> at the check that follows the receive, or the closing of the
  channel. When the list is used up the stage is blocked in the receive.
\<close>

datatype recv = Recv Region bool | Closed

datatype status = Returned | Blocked | Panicked

text \<open>
  \<open>sink.Read\<close>: the \<open>WriteAt\<close> calls made, the values sent on \<open>errs\<close> in order, the
  buffer pool afterwards and how the call ended.
\<close>

record sink_run =
  s_calls :: "write_call list"
  s_errs :: "error option list"
  s_buff :: pooledBuffer
  s_status :: status

fun sink_Read :: "writer \<Rightarrow> pooledBuffer \<Rightarrow> recv list \<Rightarrow> sink_run" where
  "sink_Read w b [] = \<lparr>s_calls = [], s_errs = [], s_buff = b, s_status = Blocked\<rparr>"
| "sink_Read w b (Closed # source) =
     \<lparr>s_calls = [], s_errs = [None], s_buff = b, s_status = Returned\<rparr>"
| "sink_Read w b (Recv data cancelled # source) =
     (if cancelled then \<lparr>s_calls = [], s_errs = [None], s_buff = b, s_status = Returned\<rparr>
      else
        (case write_region data 0 w of
           (calls, Failed e, w') \<Rightarrow>
             \<lparr>s_calls = calls, s_errs = [Some (Errorf ''error writing region: %w'' e)],
              s_buff = b, s_status = Returned\<rparr>
         | (calls, SliceOutOfRange, w') \<Rightarrow>
             \<lparr>s_calls = calls, s_errs = [], s_buff = b, s_status = Panicked\<rparr>
         | (calls, InWriteAt, w') \<Rightarrow>
             \<lparr>s_calls = calls, s_errs = [], s_buff = b, s_status = Blocked\<rparr>
         | (calls, Flushed, w') \<Rightarrow>
             (let r = sink_Read w' (Put b (Data data)) source
              in r\<lparr>s_calls := calls @ s_calls r\<rparr>)))"

text \<open>
  \<open>pool.Read\<close> starts one goroutine per Region, so its runs are interleavings. The
  state holds the input still to come, the idle writers queued in \<open>p.writers\<close>, the
  goroutines started and not yet finished (each with the writer it took and its
  Region), the \<open>WaitGroup\<close> counter, the buffer pool, the values sent on \<open>errs\<close>, and
  where the \<open>Read\<close> call itself stands.
\<close>

datatype pool_pc = Receiving | Acquiring Region | Waiting | Finished

record pool_state =
  p_source :: "recv list"
  p_writers :: "writer list"
  p_tasks :: "(writer \<times> Region) list"
  p_waiter :: int
  p_buff :: pooledBuffer
  p_errs :: "error option list"
  p_calls :: "write_call list"
  p_pc :: pool_pc
  p_panicked :: bool

text \<open>\<open>Pool(buff, writers...)\<close> queues every writer; the state is that of a \<open>Read\<close> call about to start.\<close>

definition Pool :: "pooledBuffer \<Rightarrow> writer list \<Rightarrow> recv list \<Rightarrow> pool_state" where
  "Pool buff writers source =
     \<lparr>p_source = source, p_writers = writers, p_tasks = [], p_waiter = 0, p_buff = buff,
      p_errs = [], p_calls = [], p_pc = Receiving, p_panicked = False\<rparr>"

text \<open>
  One step of the \<open>Read\<close> call itself: the receive and the check of the loop, then
  \<open>waiter.Add(1)\<close>; the receive from \<open>p.writers\<close> and the \<open>go\<close> statement;
  \<open>waiter.Wait()\<close> and \<open>errs <- nil\<close>. A step that cannot be taken leaves the state as it is.
\<close>

fun pool_main :: "pool_state \<Rightarrow> pool_state" where
  "pool_main s =
     (case p_pc s of
        Receiving \<Rightarrow>
          (case p_source s of
             [] \<Rightarrow> s
           | Closed # source \<Rightarrow> s\<lparr>p_source := source, p_pc := Waiting\<rparr>
           | Recv data cancelled # source \<Rightarrow>
               (if cancelled then s\<lparr>p_source := source, p_pc := Waiting\<rparr>
                else s\<lparr>p_source := source, p_waiter := p_waiter s + 1, p_pc := Acquiring data\<rparr>))
      | Acquiring data \<Rightarrow>
          (case p_writers s of
             [] \<Rightarrow> s
           | writer # idle \<Rightarrow>
               s\<lparr>p_writers := idle, p_tasks := p_tasks s @ [(writer, data)], p_pc := Receiving\<rparr>)
      | Waiting \<Rightarrow>
          (if p_waiter s = 0 then s\<lparr>p_errs := p_errs s @ [None], p_pc := Finished\<rparr> else s)
      | Finished \<Rightarrow> s)"

text \<open>
  The goroutine of one Region, run as one step: the write loop, then either the send of
  the wrapped error followed by \<open>return\<close>, or the release of the writer and of the
  buffer followed by \<open>waiter.Done()\<close>.
\<close>

fun pool_task :: "nat \<Rightarrow> pool_state \<Rightarrow> pool_state" where
  "pool_task i s =
     (if i < length (p_tasks s) then
        (case p_tasks s ! i of
           (writer, data) \<Rightarrow>
             (case write_region data 0 writer of
                (calls, Failed e, w') \<Rightarrow>
                  s\<lparr>p_tasks := take i (p_tasks s) @ drop (Suc i) (p_tasks s),
                    p_calls := p_calls s @ calls,
                    p_errs := p_errs s @ [Some (Errorf ''error writing regions: %w'' e)]\<rparr>
              | (calls, Flushed, w') \<Rightarrow>
                  s\<lparr>p_tasks := take i (p_tasks s) @ drop (Suc i) (p_tasks s),
                    p_calls := p_calls s @ calls,
                    p_writers := p_writers s @ [w'],
                    p_buff := Put (p_buff s) (Data data),
                    p_waiter := p_waiter s - 1\<rparr>
              | (calls, SliceOutOfRange, w') \<Rightarrow>
                  s\<lparr>p_tasks := take i (p_tasks s) @ drop (Suc i) (p_tasks s),
                    p_calls := p_calls s @ calls, p_panicked := True\<rparr>
              | (calls, InWriteAt, w') \<Rightarrow> s))
      else s)"

datatype pool_action = Main | Task nat

fun pool_step :: "pool_state \<Rightarrow> pool_action \<Rightarrow> pool_state" where
  "pool_step s Main = (if p_panicked s then s else pool_main s)"
| "pool_step s (Task i) = (if p_panicked s then s else pool_task i s)"

definition pool_Read :: "pool_action list \<Rightarrow> pool_state \<Rightarrow> pool_state" where
  "pool_Read schedule s = foldl pool_step s schedule"

section \<open>Reader-backed producer (io/source.go)\<close>

text \<open>
  One iteration of the loop of \<open>source.Write\<close> as the environment shapes it: the
  buffers other stages have put back into the shared pool since the last iteration,
  the bytes the reader has ready and its error (\<open>reader.Read(data)\<close> stores at most
  \<open>len(data)\<close> of them at the front of \<open>data\<close> and returns their number), and the value of
  \<open>ctx.Err() != nil\<close> when the loop condition is evaluated after this iteration.
\<close>

record read_step =
  r_puts :: "bytes list"
  r_bytes :: bytes
  r_err :: "error option"
  r_cancelled :: bool

text \<open>
  A run of \<open>source.Write\<close>: the \<open>Read\<close> calls made (buffer after the call, count
  returned), the Regions sent on \<open>sink\<close>, the errors sent on \<open>errs\<close>, whether
  \<open>close(sink)\<close> ran, the final \<open>b.off\<close>, the buffer pool and how the call ended.
\<close>

record source_run =
  w_reads :: "(bytes \<times> nat) list"
  w_sent :: "Region list"
  w_errs :: "error list"
  w_closed :: bool
  w_off :: "64 word"
  w_buff :: pooledBuffer
  w_status :: status

text \<open>
  The body of the loop, entered with the current \<open>done\<close>. \<open>close(sink)\<close> is deferred, so
  it runs on every way out of the function, a panic included.
\<close>

fun source_loop :: "pooledBuffer \<Rightarrow> 64 word \<Rightarrow> bool \<Rightarrow> read_step list \<Rightarrow> source_run" where
  "source_loop b off done [] =
     \<lparr>w_reads = [], w_sent = [], w_errs = [], w_closed = False, w_off = off, w_buff = b,
      w_status = Blocked\<rparr>"
| "source_loop b off done (st # steps) =
     (case Get (foldl Put b (r_puts st)) of
        None \<Rightarrow>
          \<lparr>w_reads = [], w_sent = [], w_errs = [], w_closed = True, w_off = off,
           w_buff = foldl Put b (r_puts st), w_status = Panicked\<rparr>
      | Some (buf, b') \<Rightarrow>
          (let n = length (take (length buf) (r_bytes st));
               data = take (length buf) (r_bytes st) @ drop n buf;
               err = r_err st
           in
             if err \<noteq> None \<and> \<not> is_EOF err then
               \<lparr>w_reads = [(data, n)], w_sent = [], w_errs = [the err], w_closed = True,
                w_off = off, w_buff = b', w_status = Returned\<rparr>
             else if \<not> (is_EOF err \<or> n = 0) \<and> err \<noteq> None then
               \<lparr>w_reads = [(data, n)], w_sent = [], w_errs = [the err], w_closed = True,
                w_off = off, w_buff = b', w_status = Returned\<rparr>
             else
               (let done' = (if is_EOF err \<or> n = 0 then True else done) in
                  if n = 0 then
                    \<lparr>w_reads = [(data, n)], w_sent = [], w_errs = [], w_closed = True,
                     w_off = off, w_buff = b', w_status = Returned\<rparr>
                  else if \<not> done' \<or> r_cancelled st then
                    (let r = source_loop b' (off + of_nat n) done' steps
                     in r\<lparr>w_reads := (data, n) # w_reads r,
                          w_sent := \<lparr>Data = take n data, Off = off\<rparr> # w_sent r\<rparr>)
                  else
                    \<lparr>w_reads = [(data, n)], w_sent = [\<lparr>Data = take n data, Off = off\<rparr>],
                     w_errs = [], w_closed = True, w_off = off + of_nat n, w_buff = b',
                     w_status = Returned\<rparr>)))"

text \<open>\<open>var done bool\<close> starts false, so the loop is entered whatever the context says.\<close>

definition source_Write :: "pooledBuffer \<Rightarrow> 64 word \<Rightarrow> read_step list \<Rightarrow> source_run" where
  "source_Write b off steps = source_loop b off False steps"

section \<open>Fan (source.go)\<close>

text \<open>
  \<open>fan.Write\<close> gives every nested producer a private channel and starts one \<open>pass\<close>
  goroutine per channel. A nested producer that runs to completion is the list of
  Regions it sends on its private channel before closing it. The state holds, per
  private channel, the Regions still to come, per \<open>pass\<close> goroutine whether it is still
  running, the Regions delivered on the shared \<open>sink\<close>, and whether \<open>sink\<close> is closed.
\<close>

record fan_state =
  f_sinks :: "Region list list"
  f_passing :: "bool list"
  f_out :: "Region list"
  f_closed :: bool

definition Fan :: "Region list list \<Rightarrow> fan_state" where
  "Fan sources =
     \<lparr>f_sinks = sources, f_passing = replicate (length sources) True, f_out = [],
      f_closed = False\<rparr>"

text \<open>
  \<open>Pass i cancelled\<close> is one iteration of the loop of \<open>pass\<close> on channel \<open>i\<close>, where
  \<open>cancelled\<close> is the value of \<open>ctx.Err() != nil\<close> after the receive; \<open>Wait\<close> is the return
  of \<open>waiter.Wait()\<close> followed by the deferred \<open>close(sink)\<close>.
\<close>

datatype fan_action = Pass nat bool | Wait

fun fan_step :: "fan_state \<Rightarrow> fan_action \<Rightarrow> fan_state" where
  "fan_step s (Pass i cancelled) =
     (if i < length (f_sinks s) \<and> i < length (f_passing s) \<and> f_passing s ! i then
        (case f_sinks s ! i of
           [] \<Rightarrow> s\<lparr>f_passing := (f_passing s)[i := False]\<rparr>
         | region # rest \<Rightarrow>
             (if cancelled
              then s\<lparr>f_sinks := (f_sinks s)[i := rest], f_passing := (f_passing s)[i := False]\<rparr>
              else s\<lparr>f_sinks := (f_sinks s)[i := rest], f_out := f_out s @ [region]\<rparr>))
      else s)"
| "fan_step s Wait = (if True \<in> set (f_passing s) then s else s\<lparr>f_closed := True\<rparr>)"

definition fan_Write :: "fan_action list \<Rightarrow> fan_state \<Rightarrow> fan_state" where
  "fan_Write schedule s = foldl fan_step s schedule"

fun uncancelled :: "fan_action \<Rightarrow> bool" where
  "uncancelled (Pass i cancelled) = (\<not> cancelled)"
| "uncancelled Wait = True"

text \<open>
  What holds of every state \<open>fan.Write\<close> reaches while no \<open>pass\<close> goroutine sees a
  cancelled context: each nested producer's Regions split into those already
  delivered, which lie in \<open>f_out\<close> in their order, and those still on its private
  channel; nothing is lost or duplicated; a \<open>pass\<close> goroutine that has returned has
  drained its channel; and \<open>sink\<close> is closed only when all of them have returned.
\<close>

definition fan_inv :: "Region list list \<Rightarrow> fan_state \<Rightarrow> bool" where
  "fan_inv sources s \<longleftrightarrow>
     length (f_sinks s) = length sources \<and> length (f_passing s) = length sources \<and>
     (\<forall>i<length sources. \<exists>p. sources ! i = p @ f_sinks s ! i \<and> subseq p (f_out s)) \<and>
     mset (f_out s) + mset (concat (f_sinks s)) = mset (concat sources) \<and>
     (\<forall>i<length sources. \<not> f_passing s ! i \<longrightarrow> f_sinks s ! i = []) \<and>
     (f_closed s \<longrightarrow> True \<notin> set (f_passing s))"

section \<open>Orchestrator (pipe.go)\<close>

text \<open>
  Channels are numbered in the order \<open>make(chan Region)\<close> creates them; the heap is the
  number of channels made so far. A Valve is its \<open>Open\<close> method: given the channel it
  is to write to, it returns the channel it will read from, and it may make channels.
\<close>

type_synonym chan = nat
type_synonym heap = nat
type_synonym Valve = "chan \<Rightarrow> heap \<Rightarrow> chan \<times> heap"

definition make_chan :: "heap \<Rightarrow> chan \<times> heap" where
  "make_chan h = (h, Suc h)"

text \<open>
  A call of \<open>Open\<close>: the index of the valve asked, the heap at the call, the channel
  passed as its \<open>sink\<close> and the channel it returned.
\<close>

type_synonym open_call = "nat \<times> heap \<times> chan \<times> chan"

text \<open>
  The loop of \<open>Pipe.open\<close>, \<open>for back := len(p.valves) - 1; back >= 0; back--\<close>, entered
  with \<open>back + 1\<close>. \<open>connectors\<close> is a slice of fixed length whose entries start as
  \<open>nil\<close> (\<open>None\<close>) and are assigned by index.
\<close>

fun open_loop ::
  "Valve list \<Rightarrow> nat \<Rightarrow> nat \<Rightarrow> chan \<Rightarrow> chan option list \<Rightarrow> open_call list \<Rightarrow> heap \<Rightarrow>
   chan option list \<times> open_call list \<times> heap" where
  "open_loop valves 0 i out connectors calls h = (connectors, calls, h)"
| "open_loop valves (Suc back) i out connectors calls h =
     (case (valves ! back) out h of
        (inp, h') \<Rightarrow>
          open_loop valves back (Suc i) inp (connectors[i := Some inp])
            (calls @ [(back, h, out, inp)]) h')"

definition Pipe_open :: "Valve list \<Rightarrow> heap \<Rightarrow> chan option list \<times> open_call list \<times> heap" where
  "Pipe_open valves h =
     (case make_chan h of
        (c0, h0) \<Rightarrow>
          open_loop valves (length valves) 1 c0
            ((replicate (length valves + 1) None)[0 := Some c0]) [] h0)"

text \<open>
  The channels \<open>Pipe.Pipe\<close> starts the two end stages on: \<open>p.source.Write\<close> on
  \<open>connectors[len(connectors)-1]\<close> and \<open>p.sink.Read\<close> on \<open>connectors[0]\<close>.
\<close>

definition Pipe_ends :: "chan option list \<Rightarrow> chan option \<times> chan option" where
  "Pipe_ends connectors = (connectors ! (length connectors - 1), connectors ! 0)"

text \<open>
  The \<open>select\<close> that ends \<open>Pipe.Pipe\<close>. Its inputs are the value waiting in the
  one-slot channel \<open>done\<close> (if any) and \<open>ctx.Err()\<close> (\<open>nil\<close> until \<open>ctx.Done()\<close> is closed).
  A result records the value returned, the case taken and how often \<open>cancel\<close> ran
  (the call in the first case, and the deferred call). The list holds every result
  the \<open>select\<close> may produce: none while neither case is ready, both when both are.
\<close>

datatype select_case = FromDone | FromCtx

record pipe_result =
  pr_ret :: "error option"
  pr_case :: select_case
  pr_cancels :: nat

fun Pipe_select :: "error option option \<Rightarrow> error option \<Rightarrow> pipe_result list" where
  "Pipe_select None None = []"
| "Pipe_select (Some err) None = [\<lparr>pr_ret = err, pr_case = FromDone, pr_cancels = 2\<rparr>]"
| "Pipe_select None (Some ce) = [\<lparr>pr_ret = Some ce, pr_case = FromCtx, pr_cancels = 1\<rparr>]"
| "Pipe_select (Some err) (Some ce) =
     [\<lparr>pr_ret = err, pr_case = FromDone, pr_cancels = 2\<rparr>,
      \<lparr>pr_ret = Some ce, pr_case = FromCtx, pr_cancels = 1\<rparr>]"

section \<open>BufferPool: results\<close>

lemma Put_size [simp]: "pb_size (Put b buff) = pb_size b"
  by (simp add: Put_def)

text \<open>
  C9. \<open>Get\<close> and \<open>Put\<close> are total (they never block): \<open>Get\<close> hands out the oldest
  queued buffer when there is one and otherwise allocates a fresh zeroed buffer of
  \<open>bufferSize\<close> bytes (for a non-negative \<open>bufferSize\<close>; there is no buffer of negative
  length); \<open>Put\<close> enqueues the buffer when the queue has room and otherwise drops it,
  leaving the pool as it was.
\<close>

theorem C9_get_put_never_block:
  "(pb_pool b = buff # rest \<longrightarrow> Get b = Some (buff, b\<lparr>pb_pool := rest\<rparr>)) \<and>
   (pb_pool b = [] \<and> 0 \<le> pb_size b \<longrightarrow>
      Get b = Some (replicate (nat (pb_size b)) 0, b) \<and>
      int (length (replicate (nat (pb_size b)) (0::byte))) = pb_size b) \<and>
   (length (pb_pool b) < pb_cap b \<longrightarrow> Put b x = b\<lparr>pb_pool := pb_pool b @ [x]\<rparr>) \<and>
   (\<not> length (pb_pool b) < pb_cap b \<longrightarrow> Put b x = b)"
  by (simp add: Get_def Put_def)

theorem C9_get_put_never_block_witness:
  "Get \<lparr>pb_pool = [[1, 2]], pb_cap = 1, pb_size = 2\<rparr> =
      Some ([1, 2], \<lparr>pb_pool = [], pb_cap = 1, pb_size = 2\<rparr>) \<and>
   Get \<lparr>pb_pool = [], pb_cap = 1, pb_size = 2\<rparr> =
      Some ([0, 0], \<lparr>pb_pool = [], pb_cap = 1, pb_size = 2\<rparr>) \<and>
   Put \<lparr>pb_pool = [], pb_cap = 1, pb_size = 2\<rparr> [7, 8] =
      \<lparr>pb_pool = [[7, 8]], pb_cap = 1, pb_size = 2\<rparr> \<and>
   Put \<lparr>pb_pool = [[1, 2]], pb_cap = 1, pb_size = 2\<rparr> [7, 8] =
      \<lparr>pb_pool = [[1, 2]], pb_cap = 1, pb_size = 2\<rparr>"
  using C9_get_put_never_block [of "\<lparr>pb_pool = [[1, 2]], pb_cap = 1, pb_size = 2\<rparr>" "[1, 2]" "[]" "[7, 8]"]
        C9_get_put_never_block [of "\<lparr>pb_pool = [], pb_cap = 1, pb_size = 2\<rparr>" "[]" "[]" "[7, 8]"]
  by (simp add: numeral_2_eq_2)

text \<open>
  C4. The claim asks for every buffer returned by \<open>Get\<close> to have at least \<open>bufferSize\<close>
  bytes, also after callers have put back the length-\<open>n\<close> slices of Regions. \<open>Put\<close>
  queues the slice it is given and \<open>Get\<close> returns it as queued, and nothing restores its
  length: in a pool of 4-byte buffers, a \<open>Put\<close> of a 2-byte slice makes the next \<open>Get\<close>
  return 2 bytes, whether or not a \<open>Get\<close> came before. The library's own stages do
  this: \<open>source.Write\<close> sends \<open>data[:n]\<close> after a read of 2 bytes, \<open>sink.Read\<close> puts that
  slice back, and the next \<open>Get\<close> returns it.
\<close>

theorem C4_get_returns_short_buffer:
  "run_new 4 1 [OpPut [1, 2], OpGet] = Some [[1, 2]] \<and>
   run_new 4 1 [OpGet, OpPut [1, 2], OpGet] = Some [[0, 0, 0, 0], [1, 2]] \<and>
   w_sent (source_Write \<lparr>pb_pool = [], pb_cap = 1, pb_size = 4\<rparr> 0
      [\<lparr>r_puts = [], r_bytes = [1, 2], r_err = None, r_cancelled = False\<rparr>,
       \<lparr>r_puts = [], r_bytes = [], r_err = Some EOF, r_cancelled = False\<rparr>]) =
     [\<lparr>Data = [1, 2], Off = 0\<rparr>] \<and>
   s_buff (sink_Read [(2, None)] \<lparr>pb_pool = [], pb_cap = 1, pb_size = 4\<rparr>
      [Recv \<lparr>Data = [1, 2], Off = 0\<rparr> False, Closed]) =
     \<lparr>pb_pool = [[1, 2]], pb_cap = 1, pb_size = 4\<rparr> \<and>
   Get \<lparr>pb_pool = [[1, 2]], pb_cap = 1, pb_size = 4\<rparr> =
     Some ([1, 2], \<lparr>pb_pool = [], pb_cap = 1, pb_size = 4\<rparr>) \<and>
   length ([1, 2] :: bytes) < 4"
  by (simp add: run_new_def NewBuffer_def Put_def Get_def source_Write_def Let_def numeral_eq_Suc)

section \<open>Positional writes: results\<close>

lemma write_region_offsets:
  "\<forall>c \<in> set (fst (write_region data written w)). snd c = Off data"
  by (induction data written w rule: write_region.induct)
     (auto split: option.splits prod.splits)

text \<open>
  C1. The claim asks for the retry after a short write to go to
  \<open>region.offset + bytesWrittenSoFar\<close>. The loop passes \<open>data.Off\<close> to every \<open>WriteAt\<close>
  (lemma \<open>write_region_offsets\<close>): for the Region \<open>{[1,2,3,4], 10}\<close> and a writer that
  takes two bytes per call, the retry writes \<open>[3,4]\<close> at offset 10 again, where the
  claim has offset 12.
\<close>

theorem C1_retry_offset_not_advanced:
  "s_calls (sink_Read [(2, None), (2, None)] \<lparr>pb_pool = [], pb_cap = 1, pb_size = 4\<rparr>
     [Recv \<lparr>Data = [1, 2, 3, 4], Off = 10\<rparr> False, Closed]) =
     [([1, 2, 3, 4], 10), ([3, 4], 10)]"
  by (simp add: Put_def)

text \<open>
  C2. The claim asks for never more than one terminal value per consumer. In
  \<open>pool.Read\<close> every failing write task sends its own error and returns without
  \<open>waiter.Done()\<close>: with two writers that both fail and two Regions, two errors are
  sent on \<open>errs\<close>, and the \<open>Read\<close> call stays in \<open>waiter.Wait()\<close> with the counter at 2.
\<close>

theorem C2_pool_two_failures:
  "p_errs (pool_Read [Main, Main, Main, Main, Task 0, Task 0, Main, Main]
     (Pool \<lparr>pb_pool = [], pb_cap = 1, pb_size = 4\<rparr>
        [[(0, Some (Err ''disk full''))], [(0, Some (Err ''disk full''))]]
        [Recv \<lparr>Data = [1, 2], Off = 0\<rparr> False, Recv \<lparr>Data = [3, 4], Off = 2\<rparr> False, Closed])) =
     [Some (Errorf ''error writing regions: %w'' (Err ''disk full'')),
      Some (Errorf ''error writing regions: %w'' (Err ''disk full''))] \<and>
   p_pc (pool_Read [Main, Main, Main, Main, Task 0, Task 0, Main, Main]
     (Pool \<lparr>pb_pool = [], pb_cap = 1, pb_size = 4\<rparr>
        [[(0, Some (Err ''disk full''))], [(0, Some (Err ''disk full''))]]
        [Recv \<lparr>Data = [1, 2], Off = 0\<rparr> False, Recv \<lparr>Data = [3, 4], Off = 2\<rparr> False, Closed])) =
     Waiting \<and>
   p_waiter (pool_Read [Main, Main, Main, Main, Task 0, Task 0, Main, Main]
     (Pool \<lparr>pb_pool = [], pb_cap = 1, pb_size = 4\<rparr>
        [[(0, Some (Err ''disk full''))], [(0, Some (Err ''disk full''))]]
        [Recv \<lparr>Data = [1, 2], Off = 0\<rparr> False, Recv \<lparr>Data = [3, 4], Off = 2\<rparr> False, Closed])) = 2"
  by (simp add: pool_Read_def Pool_def)

lemma write_region_rest:
  "write_region data written w = (calls, res, w') \<Longrightarrow> w' = drop (length calls) w"
  by (induction data written w arbitrary: calls res w' rule: write_region.induct)
     (auto split: if_splits option.splits prod.splits)

lemma write_region_failed:
  "write_region data written w = (calls, Failed e, w') \<Longrightarrow>
     \<exists>n. (n, Some e) \<in> set (take (length calls) w)"
  by (induction data written w arbitrary: calls w' rule: write_region.induct)
     (auto split: if_splits option.splits prod.splits)

lemma in_take_drop:
  "x \<in> set (take m (drop k xs)) \<Longrightarrow> x \<in> set (take (k + m) xs)"
  by (simp add: take_add)

lemma sink_Read_errs:
  "(s_status (sink_Read w b source) = Returned \<longrightarrow>
      s_errs (sink_Read w b source) = [None] \<or>
      (\<exists>n e. s_errs (sink_Read w b source) = [Some (Errorf ''error writing region: %w'' e)] \<and>
             (n, Some e) \<in> set (take (length (s_calls (sink_Read w b source))) w))) \<and>
   (s_status (sink_Read w b source) \<noteq> Returned \<longrightarrow> s_errs (sink_Read w b source) = [])"
proof (induction w b source rule: sink_Read.induct)
  case (1 w b)
  then show ?case by simp
next
  case (2 w b source)
  then show ?case by simp
next
  case (3 w b data cancelled source)
  show ?case
  proof (cases cancelled)
    case True
    then show ?thesis by simp
  next
    case False
    obtain calls res w' where wr: "write_region data 0 w = (calls, res, w')"
      by (cases "write_region data 0 w") auto
    show ?thesis
    proof (cases res)
      case Flushed
      have w': "w' = drop (length calls) w" using wr by (rule write_region_rest)
      from "3.IH" [OF False wr [symmetric] refl Flushed]
      show ?thesis using False wr Flushed w'
        by (auto simp: Let_def dest!: in_take_drop)
    next
      case (Failed e)
      with wr write_region_failed [of data 0 w calls e w'] False show ?thesis by auto
    next
      case SliceOutOfRange
      with wr False show ?thesis by simp
    next
      case InWriteAt
      with wr False show ?thesis by simp
    qed
  qed
qed

text \<open>
  C10. A run of \<open>sink.Read\<close> that returns without any answered \<open>WriteAt\<close> having
  reported an error sends exactly \<open>nil\<close> on \<open>errs\<close>; this includes the return taken
  when \<open>ctx.Err()\<close> is non-nil after a receive, which sends \<open>nil\<close> just as the closing
  of the input does. A non-nil value on \<open>errs\<close> is always the wrapped error of an
  answered \<open>WriteAt\<close>.
\<close>

theorem C10_sink_nil_unless_write_error:
  "(s_status (sink_Read w b source) = Returned \<and>
      (\<forall>r \<in> set (take (length (s_calls (sink_Read w b source))) w). snd r = None) \<longrightarrow>
        s_errs (sink_Read w b source) = [None]) \<and>
   (Some e \<in> set (s_errs (sink_Read w b source)) \<longrightarrow>
      (\<exists>n e'. e = Errorf ''error writing region: %w'' e' \<and>
         (n, Some e') \<in> set (take (length (s_calls (sink_Read w b source))) w))) \<and>
   sink_Read w b (Recv data True # source) =
      \<lparr>s_calls = [], s_errs = [None], s_buff = b, s_status = Returned\<rparr>"
proof -
  let ?run = "sink_Read w b source"
  note h = sink_Read_errs [of w b source]
  have a: "s_status ?run = Returned \<and>
      (\<forall>r \<in> set (take (length (s_calls ?run)) w). snd r = None) \<longrightarrow> s_errs ?run = [None]"
    using h by force
  have b: "Some e \<in> set (s_errs ?run) \<longrightarrow>
      (\<exists>n e'. e = Errorf ''error writing region: %w'' e' \<and>
         (n, Some e') \<in> set (take (length (s_calls ?run)) w))"
    using h by (cases "s_status ?run = Returned") auto
  show ?thesis using a b by simp
qed

theorem C10_sink_nil_unless_write_error_witness:
  "s_status (sink_Read [(2, None), (0, Some (Err ''disk full''))]
      \<lparr>pb_pool = [], pb_cap = 1, pb_size = 4\<rparr>
      [Recv \<lparr>Data = [1, 2], Off = 0\<rparr> False, Recv \<lparr>Data = [3, 4], Off = 2\<rparr> True]) = Returned \<and>
   s_errs (sink_Read [(2, None), (0, Some (Err ''disk full''))]
      \<lparr>pb_pool = [], pb_cap = 1, pb_size = 4\<rparr>
      [Recv \<lparr>Data = [1, 2], Off = 0\<rparr> False, Recv \<lparr>Data = [3, 4], Off = 2\<rparr> True]) = [None] \<and>
   s_errs (sink_Read [(2, None), (0, Some (Err ''disk full''))]
      \<lparr>pb_pool = [], pb_cap = 1, pb_size = 4\<rparr>
      [Recv \<lparr>Data = [1, 2], Off = 0\<rparr> False, Recv \<lparr>Data = [3, 4], Off = 2\<rparr> False]) =
     [Some (Errorf ''error writing region: %w'' (Err ''disk full''))]"
proof -
  let ?w = "[(2, None), (0, Some (Err ''disk full''))] :: writer"
  let ?b = "\<lparr>pb_pool = [], pb_cap = 1, pb_size = 4\<rparr>"
  let ?ok = "[Recv \<lparr>Data = [1, 2], Off = 0\<rparr> False, Recv \<lparr>Data = [3, 4], Off = 2\<rparr> True]"
  let ?bad = "[Recv \<lparr>Data = [1, 2], Off = 0\<rparr> False, Recv \<lparr>Data = [3, 4], Off = 2\<rparr> False]"
  have st: "s_status (sink_Read ?w ?b ?ok) = Returned" by (simp add: Put_def)
  have calls: "s_calls (sink_Read ?w ?b ?ok) = [([1, 2], 0)]" by (simp add: Put_def)
  have noerr: "\<forall>r \<in> set (take (length (s_calls (sink_Read ?w ?b ?ok))) ?w). snd r = None"
    by (simp add: calls)
  have bad: "Some (Errorf ''error writing region: %w'' (Err ''disk full''))
      \<in> set (s_errs (sink_Read ?w ?b ?bad))" by (simp add: Put_def)
  have e: "s_errs (sink_Read ?w ?b ?bad) = [Some (Errorf ''error writing region: %w'' (Err ''disk full''))]"
    by (simp add: Put_def)
  from C10_sink_nil_unless_write_error [where w = ?w and b = ?b and source = ?ok] st noerr
  have "s_errs (sink_Read ?w ?b ?ok) = [None]" by blast
  moreover from C10_sink_nil_unless_write_error [where w = ?w and b = ?b and source = ?bad
      and e = "Errorf ''error writing region: %w'' (Err ''disk full'')"] bad
  have "\<exists>n e'. Errorf ''error writing region: %w'' (Err ''disk full'') = Errorf ''error writing region: %w'' e' \<and>
         (n, Some e') \<in> set (take (length (s_calls (sink_Read ?w ?b ?bad))) ?w)" by blast
  ultimately show ?thesis using st e by simp
qed

section \<open>Reader-backed producer: results\<close>

lemma source_loop_errs_closed:
  "length (w_errs (source_loop b off dn steps)) \<le> 1 \<and>
   (w_status (source_loop b off dn steps) \<noteq> Blocked \<longrightarrow> w_closed (source_loop b off dn steps)) \<and>
   (w_errs (source_loop b off dn steps) \<noteq> [] \<longrightarrow> w_status (source_loop b off dn steps) = Returned)"
  by (induction b off dn steps rule: source_loop.induct)
     (auto simp: Let_def split: option.splits)

text \<open>
  C3 as stated fails: \<open>close(sink)\<close> is deferred, so the output channel is closed on
  the error return too. Here the first read fails with an error that is not \<open>io.EOF\<close>.
\<close>

theorem C3_error_closes_counterexample:
  "w_errs (source_Write \<lparr>pb_pool = [], pb_cap = 1, pb_size = 4\<rparr> 0
      [\<lparr>r_puts = [], r_bytes = [], r_err = Some (Err ''read failed''), r_cancelled = False\<rparr>]) =
     [Err ''read failed''] \<and>
   w_closed (source_Write \<lparr>pb_pool = [], pb_cap = 1, pb_size = 4\<rparr> 0
      [\<lparr>r_puts = [], r_bytes = [], r_err = Some (Err ''read failed''), r_cancelled = False\<rparr>])"
  by (simp add: source_Write_def Get_def)

text \<open>
  C3, amended. When a read fails with an error other than end-of-stream, the producer
  sends that one error on \<open>errs\<close>, sends no Region for that read, and returns; its
  output channel is closed on that path as on every other (the close is deferred). No
  run sends more than one error.
\<close>

theorem C3_read_failure_amended:
  "(Get (foldl Put b (r_puts st)) = Some (buf, b') \<and> r_err st = Some e \<and> \<not> unwraps_to_EOF e \<longrightarrow>
      w_errs (source_loop b off dn (st # steps)) = [e] \<and>
      w_sent (source_loop b off dn (st # steps)) = [] \<and>
      w_status (source_loop b off dn (st # steps)) = Returned \<and>
      w_closed (source_loop b off dn (st # steps))) \<and>
   length (w_errs (source_Write b off steps)) \<le> 1 \<and>
   (w_status (source_Write b off steps) \<noteq> Blocked \<longrightarrow> w_closed (source_Write b off steps))"
  using source_loop_errs_closed [of b off False steps]
  by (simp add: source_Write_def Let_def)

theorem C3_read_failure_amended_witness:
  "Get (foldl Put \<lparr>pb_pool = [], pb_cap = 1, pb_size = 4\<rparr> []) =
      Some ([0, 0, 0, 0], \<lparr>pb_pool = [], pb_cap = 1, pb_size = 4\<rparr>) \<and>
   \<not> unwraps_to_EOF (Err ''read failed'') \<and>
   w_errs (source_loop \<lparr>pb_pool = [], pb_cap = 1, pb_size = 4\<rparr> 8 False
      [\<lparr>r_puts = [], r_bytes = [1, 2], r_err = Some (Err ''read failed''), r_cancelled = False\<rparr>]) =
     [Err ''read failed''] \<and>
   w_closed (source_loop \<lparr>pb_pool = [], pb_cap = 1, pb_size = 4\<rparr> 8 False
      [\<lparr>r_puts = [], r_bytes = [1, 2], r_err = Some (Err ''read failed''), r_cancelled = False\<rparr>]) \<and>
   w_status (source_Write \<lparr>pb_pool = [], pb_cap = 1, pb_size = 4\<rparr> 8
      [\<lparr>r_puts = [], r_bytes = [], r_err = Some EOF, r_cancelled = False\<rparr>]) \<noteq> Blocked \<and>
   w_closed (source_Write \<lparr>pb_pool = [], pb_cap = 1, pb_size = 4\<rparr> 8
      [\<lparr>r_puts = [], r_bytes = [], r_err = Some EOF, r_cancelled = False\<rparr>])"
proof -
  have g: "Get (foldl Put \<lparr>pb_pool = [], pb_cap = 1, pb_size = 4\<rparr> []) =
      Some ([0, 0, 0, 0], \<lparr>pb_pool = [], pb_cap = 1, pb_size = 4\<rparr>)"
    by (simp add: Get_def numeral_eq_Suc)
  have s: "w_status (source_Write \<lparr>pb_pool = [], pb_cap = 1, pb_size = 4\<rparr> 8
      [\<lparr>r_puts = [], r_bytes = [], r_err = Some EOF, r_cancelled = False\<rparr>]) \<noteq> Blocked"
    by (simp add: source_Write_def Get_def)
  show ?thesis
    using g s
      C3_read_failure_amended [where b = "\<lparr>pb_pool = [], pb_cap = 1, pb_size = 4\<rparr>"
        and st = "\<lparr>r_puts = [], r_bytes = [1, 2], r_err = Some (Err ''read failed''), r_cancelled = False\<rparr>"
        and buf = "[0, 0, 0, 0]" and b' = "\<lparr>pb_pool = [], pb_cap = 1, pb_size = 4\<rparr>"
        and e = "Err ''read failed''" and off = 8 and dn = False and steps = "[]"]
      C3_read_failure_amended [where b = "\<lparr>pb_pool = [], pb_cap = 1, pb_size = 4\<rparr>"
        and off = 8
        and steps = "[\<lparr>r_puts = [], r_bytes = [], r_err = Some EOF, r_cancelled = False\<rparr>]"]
    by simp
qed

lemma source_loop_Cons:
  "w_sent (source_loop b off dn (st # steps)) = [] \<or>
   (\<exists>data n.
      w_reads (source_loop b off dn (st # steps)) = [(data, n)] \<and>
      w_sent (source_loop b off dn (st # steps)) = [\<lparr>Data = take n data, Off = off\<rparr>] \<and>
      length (take n data) = n) \<or>
   (\<exists>data n b' dn'.
      w_reads (source_loop b off dn (st # steps)) =
        (data, n) # w_reads (source_loop b' (off + of_nat n) dn' steps) \<and>
      w_sent (source_loop b off dn (st # steps)) =
        \<lparr>Data = take n data, Off = off\<rparr> # w_sent (source_loop b' (off + of_nat n) dn' steps) \<and>
      length (take n data) = n)"
proof (cases "Get (foldl Put b (r_puts st))")
  case None
  then show ?thesis by simp
next
  case (Some p)
  obtain buf b' where p: "p = (buf, b')" by (cases p)
  define bs where "bs = take (length buf) (r_bytes st)"
  define data where "data = bs @ drop (length bs) buf"
  define dn' where "dn' = (if is_EOF (r_err st) \<or> length bs = 0 then True else dn)"
  have len: "length (take (length bs) data) = length bs"
    by (simp add: data_def)
  let ?run = "source_loop b off dn (st # steps)"
  let ?next = "source_loop b' (off + of_nat (length bs)) dn' steps"
  have unfold: "?run =
    (if r_err st \<noteq> None \<and> \<not> is_EOF (r_err st) then
       \<lparr>w_reads = [(data, length bs)], w_sent = [], w_errs = [the (r_err st)], w_closed = True,
        w_off = off, w_buff = b', w_status = Returned\<rparr>
     else if \<not> (is_EOF (r_err st) \<or> length bs = 0) \<and> r_err st \<noteq> None then
       \<lparr>w_reads = [(data, length bs)], w_sent = [], w_errs = [the (r_err st)], w_closed = True,
        w_off = off, w_buff = b', w_status = Returned\<rparr>
     else if length bs = 0 then
       \<lparr>w_reads = [(data, length bs)], w_sent = [], w_errs = [], w_closed = True,
        w_off = off, w_buff = b', w_status = Returned\<rparr>
     else if \<not> dn' \<or> r_cancelled st then
       ?next\<lparr>w_reads := (data, length bs) # w_reads ?next,
              w_sent := \<lparr>Data = take (length bs) data, Off = off\<rparr> # w_sent ?next\<rparr>
     else
       \<lparr>w_reads = [(data, length bs)], w_sent = [\<lparr>Data = take (length bs) data, Off = off\<rparr>],
        w_errs = [], w_closed = True, w_off = off + of_nat (length bs), w_buff = b',
        w_status = Returned\<rparr>)"
    unfolding bs_def data_def dn'_def using Some p
    by (auto simp: Let_def min_def)
  have "w_sent ?run = [] \<or>
     (w_reads ?run = [(data, length bs)] \<and>
      w_sent ?run = [\<lparr>Data = take (length bs) data, Off = off\<rparr>]) \<or>
     (w_reads ?run = (data, length bs) # w_reads ?next \<and>
      w_sent ?run = \<lparr>Data = take (length bs) data, Off = off\<rparr> # w_sent ?next)"
    unfolding unfold by simp
  then show ?thesis using len by blast
qed


lemma source_loop_data:
  "i < length (w_sent (source_loop b off dn steps)) \<Longrightarrow>
   i < length (w_reads (source_loop b off dn steps)) \<and>
   Data (w_sent (source_loop b off dn steps) ! i) =
     take (snd (w_reads (source_loop b off dn steps) ! i))
          (fst (w_reads (source_loop b off dn steps) ! i)) \<and>
   length (Data (w_sent (source_loop b off dn steps) ! i)) =
     snd (w_reads (source_loop b off dn steps) ! i)"
proof (induction steps arbitrary: b off dn i)
  case Nil
  then show ?case by simp
next
  case (Cons st steps)
  let ?run = "source_loop b off dn (st # steps)"
  from source_loop_Cons [of b off dn st steps]
  consider (stop) "w_sent ?run = []"
    | (last) data n where "w_reads ?run = [(data, n)]"
        "w_sent ?run = [\<lparr>Data = take n data, Off = off\<rparr>]" "length (take n data) = n"
    | (more) data n b' dn' where
        "w_reads ?run = (data, n) # w_reads (source_loop b' (off + of_nat n) dn' steps)"
        "w_sent ?run = \<lparr>Data = take n data, Off = off\<rparr> #
           w_sent (source_loop b' (off + of_nat n) dn' steps)"
        "length (take n data) = n"
    by blast
  then show ?case
  proof cases
    case stop
    with Cons.prems show ?thesis by (simp del: source_loop.simps)
  next
    case last
    with Cons.prems show ?thesis by (simp del: source_loop.simps)
  next
    case more
    show ?thesis
    proof (cases i)
      case 0
      with more show ?thesis by (simp del: source_loop.simps)
    next
      case (Suc j)
      with Cons.prems more(2)
      have j: "j < length (w_sent (source_loop b' (off + of_nat n) dn' steps))"
        by (simp del: source_loop.simps)
      let ?next = "source_loop b' (off + of_nat n) dn' steps"
      from Cons.IH [OF j]
      have a: "j < length (w_reads ?next)"
        and b: "Data (w_sent ?next ! j) = take (snd (w_reads ?next ! j)) (fst (w_reads ?next ! j))"
        and c: "length (Data (w_sent ?next ! j)) = snd (w_reads ?next ! j)"
        by blast+
      show ?thesis
      proof (intro conjI)
        show "i < length (w_reads ?run)"
          using a by (simp only: Suc more(1) length_Cons Suc_less_eq)
        show "Data (w_sent ?run ! i) = take (snd (w_reads ?run ! i)) (fst (w_reads ?run ! i))"
          using b by (simp only: Suc more(1,2) nth_Cons_Suc)
        show "length (Data (w_sent ?run ! i)) = snd (w_reads ?run ! i)"
          using c by (simp only: Suc more(1,2) nth_Cons_Suc)
      qed
    qed
  qed
qed

lemma source_loop_offsets:
  "i < length (w_sent (source_loop b off dn steps)) \<Longrightarrow>
   Off (w_sent (source_loop b off dn steps) ! i) =
     off + of_nat (sum_list (map (\<lambda>r. length (Data r)) (take i (w_sent (source_loop b off dn steps)))))"
proof (induction steps arbitrary: b off dn i)
  case Nil
  then show ?case by simp
next
  case (Cons st steps)
  let ?run = "source_loop b off dn (st # steps)"
  from source_loop_Cons [of b off dn st steps]
  consider (stop) "w_sent ?run = []"
    | (last) data n where "w_reads ?run = [(data, n)]"
        "w_sent ?run = [\<lparr>Data = take n data, Off = off\<rparr>]" "length (take n data) = n"
    | (more) data n b' dn' where
        "w_reads ?run = (data, n) # w_reads (source_loop b' (off + of_nat n) dn' steps)"
        "w_sent ?run = \<lparr>Data = take n data, Off = off\<rparr> #
           w_sent (source_loop b' (off + of_nat n) dn' steps)"
        "length (take n data) = n"
    by blast
  then show ?case
  proof cases
    case stop
    with Cons.prems show ?thesis by (simp del: source_loop.simps)
  next
    case last
    with Cons.prems show ?thesis by (simp del: source_loop.simps)
  next
    case more
    show ?thesis
    proof (cases i)
      case 0
      with more show ?thesis by (simp del: source_loop.simps)
    next
      case (Suc j)
      with Cons.prems more(2)
      have j: "j < length (w_sent (source_loop b' (off + of_nat n) dn' steps))"
        by (simp del: source_loop.simps)
      from Cons.IH [OF j] Suc more(2,3) show ?thesis
        by (simp del: source_loop.simps add: add.assoc)
    qed
  qed
qed

lemma source_loop_shape:
  assumes g: "Get (foldl Put b (r_puts st)) = Some (buf, b')"
  shows "w_reads (source_loop b off dn (st # steps)) =
           (take (length buf) (r_bytes st) @ drop (length (take (length buf) (r_bytes st))) buf,
            length (take (length buf) (r_bytes st))) #
           (if (r_err st = None \<or> is_EOF (r_err st)) \<and> take (length buf) (r_bytes st) \<noteq> [] \<and>
               (\<not> (is_EOF (r_err st) \<or> dn) \<or> r_cancelled st)
            then w_reads (source_loop b' (off + of_nat (length (take (length buf) (r_bytes st))))
                            (is_EOF (r_err st) \<or> dn) steps)
            else []) \<and>
         w_sent (source_loop b off dn (st # steps)) =
           (if (r_err st = None \<or> is_EOF (r_err st)) \<and> take (length buf) (r_bytes st) \<noteq> []
            then \<lparr>Data = take (length buf) (r_bytes st), Off = off\<rparr> #
              (if \<not> (is_EOF (r_err st) \<or> dn) \<or> r_cancelled st
               then w_sent (source_loop b' (off + of_nat (length (take (length buf) (r_bytes st))))
                              (is_EOF (r_err st) \<or> dn) steps)
               else [])
            else [])"
  using g by (cases "r_err st") (auto simp: Let_def min_def)


lemma source_loop_reads:
  "i < length (w_reads (source_loop b off dn steps)) \<Longrightarrow>
     i < length steps \<and>
     snd (w_reads (source_loop b off dn steps) ! i) =
       length (take (length (fst (w_reads (source_loop b off dn steps) ! i))) (r_bytes (steps ! i))) \<and>
     take (snd (w_reads (source_loop b off dn steps) ! i))
          (fst (w_reads (source_loop b off dn steps) ! i)) =
       take (length (fst (w_reads (source_loop b off dn steps) ! i))) (r_bytes (steps ! i)) \<and>
     (snd (w_reads (source_loop b off dn steps) ! i) \<noteq> 0 \<and>
      (r_err (steps ! i) = None \<or> is_EOF (r_err (steps ! i))) \<longrightarrow>
        i < length (w_sent (source_loop b off dn steps)))"
proof (induction steps arbitrary: b off dn i)
  case Nil
  then show ?case by simp
next
  case (Cons st steps)
  let ?R = "source_loop b off dn (st # steps)"
  show ?case
  proof (cases "Get (foldl Put b (r_puts st))")
    case None
    then have "w_reads ?R = []" by simp
    with Cons.prems show ?thesis by (simp del: source_loop.simps)
  next
    case (Some p)
    obtain buf b' where g: "Get (foldl Put b (r_puts st)) = Some (buf, b')"
      using Some by (cases p) simp
    define bs where "bs = take (length buf) (r_bytes st)"
    define data where "data = bs @ drop (length bs) buf"
    define nxt where
      "nxt = source_loop b' (off + of_nat (length bs)) (is_EOF (r_err st) \<or> dn) steps"
    define emits where "emits \<longleftrightarrow> (r_err st = None \<or> is_EOF (r_err st)) \<and> bs \<noteq> []"
    define cont where "cont \<longleftrightarrow> \<not> (is_EOF (r_err st) \<or> dn) \<or> r_cancelled st"
    have rd: "w_reads ?R = (data, length bs) # (if emits \<and> cont then w_reads nxt else [])"
      using source_loop_shape [OF g, of off dn steps]
      unfolding bs_def data_def nxt_def emits_def cont_def
      by (simp del: source_loop.simps)
    have sn: "w_sent ?R =
        (if emits then \<lparr>Data = bs, Off = off\<rparr> # (if cont then w_sent nxt else []) else [])"
      using source_loop_shape [OF g, of off dn steps]
      unfolding bs_def data_def nxt_def emits_def cont_def
      by (simp del: source_loop.simps)
    have ld: "length data = length buf" by (simp add: data_def bs_def)
    have tk: "take (length bs) data = bs" by (simp add: data_def)
    have lb: "length bs = length (take (length data) (r_bytes st))"
      unfolding ld by (simp add: bs_def)
    have tb: "take (length bs) data = take (length data) (r_bytes st)"
      unfolding tk ld by (simp add: bs_def)
    show ?thesis
    proof (cases i)
      case 0
      have r0: "w_reads ?R ! 0 = (data, length bs)" unfolding rd by simp
      have d: "length bs \<noteq> 0 \<and> (r_err st = None \<or> is_EOF (r_err st)) \<longrightarrow>
                 0 < length (w_sent ?R)"
        unfolding sn by (simp add: emits_def)
      show ?thesis
        unfolding 0 r0 using lb tb d by (simp del: source_loop.simps)
    next
      case (Suc j)
      from Cons.prems Suc have ec: "emits \<and> cont" and j: "j < length (w_reads nxt)"
        unfolding rd by (simp_all split: if_splits)
      have rj: "w_reads ?R ! i = w_reads nxt ! j" unfolding rd Suc using ec by simp
      have sj: "i < length (w_sent ?R) \<longleftrightarrow> j < length (w_sent nxt)"
        unfolding sn Suc using ec by simp
      have stj: "(st # steps) ! i = steps ! j" unfolding Suc by simp
      have li: "i < length (st # steps) \<longleftrightarrow> j < length steps" unfolding Suc by simp
      from Cons.IH [OF j [unfolded nxt_def]]
      show ?thesis unfolding rj sj stj li nxt_def .
    qed
  qed
qed

text \<open>
  C6. In every run of \<open>source.Write\<close> started at base offset \<open>off\<close>, the \<open>i\<close>-th Region
  sent carries the buffer of the \<open>i\<close>-th read truncated to the count that read
  returned, and its offset is \<open>off\<close> plus the lengths of the Regions sent before it
  (\<open>int64\<close> addition). That data is what the reader delivered in the \<open>i\<close>-th read: as
  many of the bytes it had ready as fit the buffer. Every read that returns bytes
  without an error other than end-of-stream sends a Region. One iteration sends
  exactly the Region \<open>{Data: bytes read, Off: running offset}\<close> when bytes were read, and
  goes on from the offset advanced by their number. An iteration whose read returns
  end-of-stream and no bytes ends the run: nothing is sent, no error is reported, the
  output channel is closed.
\<close>

theorem C6_source_regions:
  "(\<forall>i < length (w_sent (source_Write b off steps)).
      Data (w_sent (source_Write b off steps) ! i) =
        take (snd (w_reads (source_Write b off steps) ! i))
             (fst (w_reads (source_Write b off steps) ! i)) \<and>
      Off (w_sent (source_Write b off steps) ! i) =
        off + of_nat (sum_list (map (\<lambda>r. length (Data r))
                                    (take i (w_sent (source_Write b off steps)))))) \<and>
   (Get (foldl Put b (r_puts st)) = Some (buf, b') \<and> is_EOF (r_err st) \<and>
      take (length buf) (r_bytes st) = [] \<longrightarrow>
        source_loop b off dn (st # rest) =
          \<lparr>w_reads = [(buf, 0)], w_sent = [], w_errs = [], w_closed = True, w_off = off,
           w_buff = b', w_status = Returned\<rparr>) \<and>
   (\<forall>i < length (w_sent (source_Write b off steps)).
      i < length steps \<and>
      Data (w_sent (source_Write b off steps) ! i) =
        take (length (fst (w_reads (source_Write b off steps) ! i))) (r_bytes (steps ! i))) \<and>
   (\<forall>i < length (w_reads (source_Write b off steps)).
      i < length steps \<and>
      snd (w_reads (source_Write b off steps) ! i) =
        length (take (length (fst (w_reads (source_Write b off steps) ! i)))
                     (r_bytes (steps ! i))) \<and>
      (snd (w_reads (source_Write b off steps) ! i) \<noteq> 0 \<and>
       (r_err (steps ! i) = None \<or> is_EOF (r_err (steps ! i))) \<longrightarrow>
         i < length (w_sent (source_Write b off steps)))) \<and>
   (Get (foldl Put b (r_puts st)) = Some (buf, b') \<longrightarrow>
      w_sent (source_loop b off dn (st # rest)) =
        (if (r_err st = None \<or> is_EOF (r_err st)) \<and> take (length buf) (r_bytes st) \<noteq> []
         then \<lparr>Data = take (length buf) (r_bytes st), Off = off\<rparr> #
           (if \<not> (is_EOF (r_err st) \<or> dn) \<or> r_cancelled st
            then w_sent (source_loop b' (off + of_nat (length (take (length buf) (r_bytes st))))
                           (is_EOF (r_err st) \<or> dn) rest)
            else [])
         else []))"
proof -
  let ?R = "source_loop b off False steps"
  have a: "\<forall>i < length (w_sent ?R).
      Data (w_sent ?R ! i) = take (snd (w_reads ?R ! i)) (fst (w_reads ?R ! i)) \<and>
      Off (w_sent ?R ! i) =
        off + of_nat (sum_list (map (\<lambda>r. length (Data r)) (take i (w_sent ?R))))"
    using source_loop_data [of _ b off False steps] source_loop_offsets [of _ b off False steps]
    by blast
  have e: "Get (foldl Put b (r_puts st)) = Some (buf, b') \<and> is_EOF (r_err st) \<and>
      take (length buf) (r_bytes st) = [] \<longrightarrow>
        source_loop b off dn (st # rest) =
          \<lparr>w_reads = [(buf, 0)], w_sent = [], w_errs = [], w_closed = True, w_off = off,
           w_buff = b', w_status = Returned\<rparr>"
    by (auto simp: Let_def)
  have c: "\<forall>i < length (w_sent ?R).
      i < length steps \<and>
      Data (w_sent ?R ! i) = take (length (fst (w_reads ?R ! i))) (r_bytes (steps ! i))"
  proof (intro allI impI)
    fix i assume i: "i < length (w_sent ?R)"
    from source_loop_data [OF i]
    have ir: "i < length (w_reads ?R)"
      and d: "Data (w_sent ?R ! i) = take (snd (w_reads ?R ! i)) (fst (w_reads ?R ! i))"
      by blast+
    from source_loop_reads [OF ir]
    have "i < length steps"
      and "take (snd (w_reads ?R ! i)) (fst (w_reads ?R ! i)) =
             take (length (fst (w_reads ?R ! i))) (r_bytes (steps ! i))"
      by blast+
    with d show "i < length steps \<and>
      Data (w_sent ?R ! i) = take (length (fst (w_reads ?R ! i))) (r_bytes (steps ! i))"
      by (simp only:)
  qed
  have r: "\<forall>i < length (w_reads ?R).
      i < length steps \<and>
      snd (w_reads ?R ! i) = length (take (length (fst (w_reads ?R ! i))) (r_bytes (steps ! i))) \<and>
      (snd (w_reads ?R ! i) \<noteq> 0 \<and> (r_err (steps ! i) = None \<or> is_EOF (r_err (steps ! i))) \<longrightarrow>
         i < length (w_sent ?R))"
    using source_loop_reads [of _ b off False steps] by blast
  have s: "Get (foldl Put b (r_puts st)) = Some (buf, b') \<longrightarrow>
      w_sent (source_loop b off dn (st # rest)) =
        (if (r_err st = None \<or> is_EOF (r_err st)) \<and> take (length buf) (r_bytes st) \<noteq> []
         then \<lparr>Data = take (length buf) (r_bytes st), Off = off\<rparr> #
           (if \<not> (is_EOF (r_err st) \<or> dn) \<or> r_cancelled st
            then w_sent (source_loop b' (off + of_nat (length (take (length buf) (r_bytes st))))
                           (is_EOF (r_err st) \<or> dn) rest)
            else [])
         else [])"
    using source_loop_shape [of b st buf b' off dn rest] by blast
  from a e c r s show ?thesis unfolding source_Write_def by (intro conjI)
qed

theorem C6_source_regions_witness:
  "w_sent (source_Write \<lparr>pb_pool = [], pb_cap = 1, pb_size = 4\<rparr> 100
      [\<lparr>r_puts = [], r_bytes = [1, 2, 3, 4, 5, 6], r_err = None, r_cancelled = False\<rparr>,
       \<lparr>r_puts = [], r_bytes = [7, 8], r_err = None, r_cancelled = False\<rparr>,
       \<lparr>r_puts = [], r_bytes = [], r_err = Some EOF, r_cancelled = False\<rparr>]) =
     [\<lparr>Data = [1, 2, 3, 4], Off = 100\<rparr>, \<lparr>Data = [7, 8], Off = 104\<rparr>] \<and>
   w_reads (source_Write \<lparr>pb_pool = [], pb_cap = 1, pb_size = 4\<rparr> 100
      [\<lparr>r_puts = [], r_bytes = [1, 2, 3, 4, 5, 6], r_err = None, r_cancelled = False\<rparr>,
       \<lparr>r_puts = [], r_bytes = [7, 8], r_err = None, r_cancelled = False\<rparr>,
       \<lparr>r_puts = [], r_bytes = [], r_err = Some EOF, r_cancelled = False\<rparr>]) =
     [([1, 2, 3, 4], 4), ([7, 8, 0, 0], 2), ([0, 0, 0, 0], 0)] \<and>
   (100 :: 64 word) + of_nat (sum_list (map (\<lambda>r. length (Data r))
       (take 1 [\<lparr>Data = [1, 2, 3, 4], Off = 100\<rparr>, \<lparr>Data = [7, 8], Off = 104\<rparr>]))) = 104 \<and>
   take (length [7, 8, 0, 0 :: byte]) [7, 8 :: byte] = [7, 8] \<and>
   (1 :: nat) < length [\<lparr>Data = [1, 2, 3, 4], Off = 100\<rparr>, \<lparr>Data = [7, 8], Off = 104\<rparr>] \<and>
   source_loop \<lparr>pb_pool = [], pb_cap = 1, pb_size = 4\<rparr> 106 False
      [\<lparr>r_puts = [], r_bytes = [], r_err = Some EOF, r_cancelled = False\<rparr>] =
     \<lparr>w_reads = [([0, 0, 0, 0], 0)], w_sent = [], w_errs = [], w_closed = True, w_off = 106,
      w_buff = \<lparr>pb_pool = [], pb_cap = 1, pb_size = 4\<rparr>, w_status = Returned\<rparr> \<and>
   w_sent (source_loop \<lparr>pb_pool = [], pb_cap = 1, pb_size = 4\<rparr> 104 False
      [\<lparr>r_puts = [], r_bytes = [7, 8], r_err = None, r_cancelled = False\<rparr>]) =
     [\<lparr>Data = [7, 8], Off = 104\<rparr>]"
proof -
  let ?b = "\<lparr>pb_pool = [], pb_cap = 1, pb_size = 4\<rparr>"
  let ?steps = "[\<lparr>r_puts = [], r_bytes = [1, 2, 3, 4, 5, 6], r_err = None, r_cancelled = False\<rparr>,
       \<lparr>r_puts = [], r_bytes = [7, 8], r_err = None, r_cancelled = False\<rparr>,
       \<lparr>r_puts = [], r_bytes = [], r_err = Some EOF, r_cancelled = False\<rparr>]"
  have g: "Get (foldl Put ?b []) = Some ([0, 0, 0, 0], ?b)"
    by (simp add: Get_def numeral_eq_Suc)
  have s: "w_sent (source_Write ?b 100 ?steps) =
     [\<lparr>Data = [1, 2, 3, 4], Off = 100\<rparr>, \<lparr>Data = [7, 8], Off = 104\<rparr>]"
    by (simp add: source_Write_def Get_def numeral_eq_Suc Let_def)
  have r: "w_reads (source_Write ?b 100 ?steps) =
     [([1, 2, 3, 4], 4), ([7, 8, 0, 0], 2), ([0, 0, 0, 0], 0)]"
    by (simp add: source_Write_def Get_def numeral_eq_Suc Let_def)
  note run = C6_source_regions [where b = ?b and off = 100 and steps = ?steps]
  note eof = C6_source_regions [where b = ?b and off = 106
        and st = "\<lparr>r_puts = [], r_bytes = [], r_err = Some EOF, r_cancelled = False\<rparr>"
        and buf = "[0, 0, 0, 0]" and b' = ?b and dn = False and rest = "[]"]
  note emit = C6_source_regions [where b = ?b and off = 104
        and st = "\<lparr>r_puts = [], r_bytes = [7, 8], r_err = None, r_cancelled = False\<rparr>"
        and buf = "[0, 0, 0, 0]" and b' = ?b and dn = False and rest = "[]"]
  have e1: "source_loop ?b 106 False
      [\<lparr>r_puts = [], r_bytes = [], r_err = Some EOF, r_cancelled = False\<rparr>] =
     \<lparr>w_reads = [([0, 0, 0, 0], 0)], w_sent = [], w_errs = [], w_closed = True, w_off = 106,
      w_buff = ?b, w_status = Returned\<rparr>"
    using eof g by simp
  have e2: "w_sent (source_loop ?b 104 False
      [\<lparr>r_puts = [], r_bytes = [7, 8], r_err = None, r_cancelled = False\<rparr>]) =
     [\<lparr>Data = [7, 8], Off = 104\<rparr>]"
    using emit g by (simp add: r)
  from run have "1 < length (w_reads (source_Write ?b 100 ?steps)) \<longrightarrow>
      (snd (w_reads (source_Write ?b 100 ?steps) ! 1) \<noteq> 0 \<and>
       (r_err (?steps ! 1) = None \<or> is_EOF (r_err (?steps ! 1))) \<longrightarrow>
         1 < length (w_sent (source_Write ?b 100 ?steps)))"
    by blast
  then have e3: "(1 :: nat) < length [\<lparr>Data = [1, 2, 3, 4], Off = 100\<rparr>, \<lparr>Data = [7, 8], Off = 104\<rparr>]"
    unfolding r s by simp
  from s r e1 e2 e3 show ?thesis by simp
qed

section \<open>Orchestrator: results\<close>

text \<open>
  C5. \<open>Pipe.Pipe\<close> has no result while neither \<open>done\<close> holds a value nor the context
  has expired. When only one of the two is ready, that case is taken. A result taken
  from \<open>done\<close> is the value that was waiting there; a result taken from the context is
  \<open>ctx.Err()\<close>, which is not \<open>nil\<close>. So the result is \<open>nil\<close> exactly when the value
  taken from \<open>done\<close> is \<open>nil\<close>. \<open>cancel\<close> runs at least once on every return.
\<close>

theorem C5_pipe_select:
  "(Pipe_select d c = [] \<longleftrightarrow> d = None \<and> c = None) \<and>
   (c = None \<longrightarrow> (\<forall>r \<in> set (Pipe_select d c). pr_case r = FromDone)) \<and>
   (d = None \<longrightarrow> (\<forall>r \<in> set (Pipe_select d c). pr_case r = FromCtx)) \<and>
   (\<forall>r \<in> set (Pipe_select d c).
      (pr_case r = FromDone \<longrightarrow> d = Some (pr_ret r)) \<and>
      (pr_case r = FromCtx \<longrightarrow> pr_ret r = c \<and> c \<noteq> None) \<and>
      (pr_ret r = None \<longleftrightarrow> pr_case r = FromDone \<and> d = Some None) \<and>
      1 \<le> pr_cancels r)"
  by (cases d; cases c) auto

theorem C5_pipe_select_witness:
  "Pipe_select (Some None) None = [\<lparr>pr_ret = None, pr_case = FromDone, pr_cancels = 2\<rparr>] \<and>
   Pipe_select None (Some DeadlineExceeded) =
     [\<lparr>pr_ret = Some DeadlineExceeded, pr_case = FromCtx, pr_cancels = 1\<rparr>] \<and>
   pr_case (hd (Pipe_select (Some None) None)) = FromDone \<and>
   pr_ret (hd (Pipe_select (Some None) None)) = None \<and>
   pr_case (hd (Pipe_select None (Some DeadlineExceeded))) = FromCtx \<and>
   pr_ret (hd (Pipe_select None (Some DeadlineExceeded))) = Some DeadlineExceeded"
  using C5_pipe_select [of "Some None" None] C5_pipe_select [of None "Some DeadlineExceeded"]
  by simp

lemma open_loop_frame:
  "open_loop valves bk i out connectors calls h = (cs, ls, h') \<Longrightarrow>
     length cs = length connectors \<and> length ls = length calls + bk \<and>
     (\<forall>j<i. cs ! j = connectors ! j) \<and> (\<forall>j<length calls. ls ! j = calls ! j)"
proof (induction bk arbitrary: i out connectors calls h)
  case 0
  then show ?case by simp
next
  case (Suc bk)
  obtain inp h1 where v: "(valves ! bk) out h = (inp, h1)"
    by (cases "(valves ! bk) out h")
  from Suc.prems v
  have r: "open_loop valves bk (Suc i) inp (connectors[i := Some inp])
             (calls @ [(bk, h, out, inp)]) h1 = (cs, ls, h')"
    by simp
  from Suc.IH [OF r]
  have l1: "length cs = length connectors"
    and l2: "length ls = length calls + Suc bk"
    and f1: "\<forall>j<Suc i. cs ! j = (connectors[i := Some inp]) ! j"
    and f2: "\<forall>j<Suc (length calls). ls ! j = (calls @ [(bk, h, out, inp)]) ! j"
    by simp_all
  have "\<forall>j<i. cs ! j = connectors ! j" using f1 by simp
  moreover have "\<forall>j<length calls. ls ! j = calls ! j" using f2 by (simp add: nth_append)
  ultimately show ?case using l1 l2 by simp
qed

lemma open_loop_new:
  "open_loop valves bk i out connectors calls h = (cs, ls, h') \<Longrightarrow>
   i + bk \<le> length connectors \<Longrightarrow>
     \<forall>k<bk. \<exists>hk ck.
        ls ! (length calls + k) = (bk - 1 - k, hk, ck, the (cs ! (i + k))) \<and>
        (k = 0 \<longrightarrow> ck = out \<and> hk = h) \<and>
        (0 < k \<longrightarrow> cs ! (i + k - 1) = Some ck) \<and>
        cs ! (i + k) = Some (fst ((valves ! (bk - 1 - k)) ck hk))"
proof (induction bk arbitrary: i out connectors calls h)
  case 0
  then show ?case by simp
next
  case (Suc bk)
  obtain inp h1 where v: "(valves ! bk) out h = (inp, h1)"
    by (cases "(valves ! bk) out h")
  let ?conns = "connectors[i := Some inp]"
  let ?calls = "calls @ [(bk, h, out, inp)]"
  from Suc.prems(1) v
  have r: "open_loop valves bk (Suc i) inp ?conns ?calls h1 = (cs, ls, h')"
    by simp
  have il: "i < length connectors" using Suc.prems(2) by simp
  from open_loop_frame [OF r]
  have f1: "\<forall>j<Suc i. cs ! j = ?conns ! j"
    and f2: "\<forall>j<length ?calls. ls ! j = ?calls ! j"
    by simp_all
  have csi: "cs ! i = Some inp" using f1 il by simp
  have ls0: "ls ! length calls = (bk, h, out, inp)" using f2 by simp
  have le: "Suc i + bk \<le> length ?conns" using Suc.prems(2) by simp
  note IH = Suc.IH [OF r le]
  show ?case
  proof (intro allI impI)
    fix k assume k: "k < Suc bk"
    show "\<exists>hk ck.
        ls ! (length calls + k) = (Suc bk - 1 - k, hk, ck, the (cs ! (i + k))) \<and>
        (k = 0 \<longrightarrow> ck = out \<and> hk = h) \<and>
        (0 < k \<longrightarrow> cs ! (i + k - 1) = Some ck) \<and>
        cs ! (i + k) = Some (fst ((valves ! (Suc bk - 1 - k)) ck hk))"
    proof (cases k)
      case 0
      have "ls ! (length calls + k) = (Suc bk - 1 - k, h, out, the (cs ! (i + k)))"
        using 0 ls0 csi by simp
      moreover have "cs ! (i + k) = Some (fst ((valves ! (Suc bk - 1 - k)) out h))"
        using 0 csi v by simp
      ultimately show ?thesis using 0 by blast
    next
      case (Suc k')
      with k have k': "k' < bk" by simp
      from IH k' obtain hk ck where
        a: "ls ! (length ?calls + k') = (bk - 1 - k', hk, ck, the (cs ! (Suc i + k')))"
        and b: "k' = 0 \<longrightarrow> ck = inp \<and> hk = h1"
        and c: "0 < k' \<longrightarrow> cs ! (Suc i + k' - 1) = Some ck"
        and d: "cs ! (Suc i + k') = Some (fst ((valves ! (bk - 1 - k')) ck hk))"
        by blast
      have a': "ls ! (length calls + k) = (Suc bk - 1 - k, hk, ck, the (cs ! (i + k)))"
        using a Suc by simp
      have c': "cs ! (i + k - 1) = Some ck"
      proof (cases k')
        case 0
        with b csi Suc show ?thesis by simp
      next
        case (Suc k'')
        with c \<open>k = Suc k'\<close> show ?thesis by simp
      qed
      have d': "cs ! (i + k) = Some (fst ((valves ! (Suc bk - 1 - k)) ck hk))"
        using d Suc by simp
      from a' c' d' Suc show ?thesis by blast
    qed
  qed
qed

text \<open>
  C7. For a pipeline with \<open>n\<close> valves, \<open>Pipe.open\<close> returns \<open>n + 1\<close> channels. It makes
  the consumer-adjacent channel first (the first \<open>Open\<close> call already sees it made) and
  stores it at index 0. The \<open>j\<close>-th \<open>Open\<close> call goes to valve \<open>n - 1 - j\<close>, so the valves
  are asked last to first; it passes the channel at index \<open>j\<close>, the one produced just
  before, as the valve's output, and the channel the valve returns is stored at index
  \<open>j + 1\<close>. \<open>Pipe.Pipe\<close> starts the producer on the channel at index \<open>n\<close> and the
  consumer on the channel at index 0.
\<close>

theorem C7_wiring:
  assumes "Pipe_open valves h = (connectors, calls, h')"
  shows "length connectors = length valves + 1 \<and> length calls = length valves \<and>
     connectors ! 0 = Some (fst (make_chan h)) \<and>
     (\<forall>j < length valves. \<exists>hj cj.
        calls ! j = (length valves - 1 - j, hj, cj, the (connectors ! Suc j)) \<and>
        connectors ! j = Some cj \<and>
        connectors ! Suc j = Some (fst ((valves ! (length valves - 1 - j)) cj hj)) \<and>
        (j = 0 \<longrightarrow> hj = snd (make_chan h))) \<and>
     Pipe_ends connectors = (connectors ! length valves, connectors ! 0)"
proof -
  let ?n = "length valves"
  let ?conns = "(replicate (?n + 1) None)[0 := Some h]"
  from assms have r: "open_loop valves ?n 1 h ?conns [] (Suc h) = (connectors, calls, h')"
    by (simp add: Pipe_open_def make_chan_def)
  from open_loop_frame [OF r]
  have len: "length connectors = ?n + 1" and lc: "length calls = ?n"
    and c0: "connectors ! 0 = Some h"
    by simp_all
  have le: "1 + ?n \<le> length ?conns" by simp
  note new = open_loop_new [OF r le]
  have w: "\<forall>j < ?n. \<exists>hj cj.
        calls ! j = (?n - 1 - j, hj, cj, the (connectors ! Suc j)) \<and>
        connectors ! j = Some cj \<and>
        connectors ! Suc j = Some (fst ((valves ! (?n - 1 - j)) cj hj)) \<and>
        (j = 0 \<longrightarrow> hj = snd (make_chan h))"
  proof (intro allI impI)
    fix j assume j: "j < ?n"
    from new j obtain hj cj where
      a: "calls ! (length ([] :: open_call list) + j) = (?n - 1 - j, hj, cj, the (connectors ! (1 + j)))"
      and b: "j = 0 \<longrightarrow> cj = h \<and> hj = Suc h"
      and c: "0 < j \<longrightarrow> connectors ! (1 + j - 1) = Some cj"
      and d: "connectors ! (1 + j) = Some (fst ((valves ! (?n - 1 - j)) cj hj))"
      by blast
    have cj: "connectors ! j = Some cj"
    proof (cases j)
      case 0
      with b c0 show ?thesis by simp
    next
      case (Suc j')
      with c show ?thesis by simp
    qed
    from a have a': "calls ! j = (?n - 1 - j, hj, cj, the (connectors ! Suc j))" by simp
    from d have d': "connectors ! Suc j = Some (fst ((valves ! (?n - 1 - j)) cj hj))" by simp
    from b have b': "j = 0 \<longrightarrow> hj = snd (make_chan h)" by (simp add: make_chan_def)
    from a' cj d' b' show "\<exists>hj cj.
        calls ! j = (?n - 1 - j, hj, cj, the (connectors ! Suc j)) \<and>
        connectors ! j = Some cj \<and>
        connectors ! Suc j = Some (fst ((valves ! (?n - 1 - j)) cj hj)) \<and>
        (j = 0 \<longrightarrow> hj = snd (make_chan h))" by blast
  qed
  have e: "Pipe_ends connectors = (connectors ! ?n, connectors ! 0)"
    using len by (simp add: Pipe_ends_def)
  from len lc c0 w e show ?thesis by (simp add: make_chan_def)
qed


theorem C7_wiring_witness:
  "Pipe_open [\<lambda>out. make_chan, \<lambda>out. make_chan] 0 =
     ([Some 0, Some 1, Some 2], [(1, 1, 0, 1), (0, 2, 1, 2)], 3) \<and>
   length [Some 0, Some 1, Some (2 :: chan)] = length [\<lambda>out :: chan. make_chan, \<lambda>out. make_chan] + 1 \<and>
   [Some 0, Some 1, Some (2 :: chan)] ! 0 = Some (fst (make_chan 0)) \<and>
   Pipe_ends [Some 0, Some 1, Some 2] = (Some 2, Some 0)"
proof -
  have e: "Pipe_open [\<lambda>out. make_chan, \<lambda>out. make_chan] 0 =
     ([Some 0, Some 1, Some 2], [(1, 1, 0, 1), (0, 2, 1, 2)], 3)"
    by (simp add: Pipe_open_def make_chan_def numeral_eq_Suc)
  from C7_wiring [OF e] e show ?thesis by simp
qed

section \<open>Fan: results\<close>

lemma mset_concat_update:
  "i < length xss \<Longrightarrow> xss ! i = x # rest \<Longrightarrow>
     mset (concat xss) = mset (concat (xss[i := rest])) + {#x#}"
proof (induction xss arbitrary: i)
  case Nil
  then show ?case by simp
next
  case (Cons xs xss)
  show ?case
  proof (cases i)
    case 0
    with Cons.prems show ?thesis by simp
  next
    case (Suc j)
    with Cons.prems have "j < length xss" "xss ! j = x # rest" by simp_all
    from Cons.IH [OF this] Suc show ?thesis by simp
  qed
qed

lemma concat_all_Nil: "(\<forall>i<length xss. xss ! i = []) \<Longrightarrow> concat xss = []"
  by (induction xss) (auto simp: nth_Cons split: nat.splits)

lemma fan_inv_init: "fan_inv sources (Fan sources)"
proof -
  have "\<forall>i<length sources. \<exists>p. sources ! i = p @ sources ! i \<and> subseq p []"
    by simp
  then show ?thesis by (simp add: fan_inv_def Fan_def)
qed

lemma fan_inv_pass_closed:
  assumes inv: "fan_inv sources s" and i: "i < length (f_passing s)" and p: "f_passing s ! i"
  shows "\<not> f_closed s"
proof
  assume "f_closed s"
  with inv have "True \<notin> set (f_passing s)" by (simp add: fan_inv_def)
  moreover from i p have "True \<in> set (f_passing s)" by (metis nth_mem)
  ultimately show False by simp
qed

lemma fan_inv_return:
  assumes inv: "fan_inv sources s" and i: "i < length (f_sinks s)" "i < length (f_passing s)"
    and p: "f_passing s ! i" and e: "f_sinks s ! i = []"
  shows "fan_inv sources (s\<lparr>f_passing := (f_passing s)[i := False]\<rparr>)"
proof -
  have nc: "\<not> f_closed s" using fan_inv_pass_closed [OF inv i(2) p] .
  have "\<forall>j<length sources. \<not> (f_passing s)[i := False] ! j \<longrightarrow> f_sinks s ! j = []"
  proof (intro allI impI)
    fix j assume j: "j < length sources" and np: "\<not> (f_passing s)[i := False] ! j"
    show "f_sinks s ! j = []"
    proof (cases "j = i")
      case True
      with e show ?thesis by simp
    next
      case False
      with np have "\<not> f_passing s ! j" by simp
      with inv j show ?thesis by (simp add: fan_inv_def)
    qed
  qed
  with inv nc show ?thesis by (simp add: fan_inv_def)
qed

lemma fan_inv_forward:
  assumes inv: "fan_inv sources s" and i: "i < length (f_sinks s)" "i < length (f_passing s)"
    and p: "f_passing s ! i" and e: "f_sinks s ! i = x # rest"
  shows "fan_inv sources (s\<lparr>f_sinks := (f_sinks s)[i := rest], f_out := f_out s @ [x]\<rparr>)"
proof -
  have nc: "\<not> f_closed s" using fan_inv_pass_closed [OF inv i(2) p] .
  have len: "length (f_sinks s) = length sources" "length (f_passing s) = length sources"
    using inv by (simp_all add: fan_inv_def)
  have a: "\<forall>j<length sources. \<exists>q. sources ! j = q @ (f_sinks s)[i := rest] ! j \<and>
              subseq q (f_out s @ [x])"
  proof (intro allI impI)
    fix j assume j: "j < length sources"
    with inv obtain q where q: "sources ! j = q @ f_sinks s ! j" "subseq q (f_out s)"
      by (auto simp: fan_inv_def)
    show "\<exists>q. sources ! j = q @ (f_sinks s)[i := rest] ! j \<and> subseq q (f_out s @ [x])"
    proof (cases "j = i")
      case True
      have "sources ! j = (q @ [x]) @ (f_sinks s)[i := rest] ! j"
        using q(1) e True i(1) by simp
      moreover have "subseq (q @ [x]) (f_out s @ [x])" using q(2) by simp
      ultimately show ?thesis by blast
    next
      case False
      have "sources ! j = q @ (f_sinks s)[i := rest] ! j" using q(1) False by simp
      moreover have "subseq q (f_out s @ [x])" using q(2) by (rule subseq_rev_drop_many)
      ultimately show ?thesis by blast
    qed
  qed
  have m: "mset (f_out s @ [x]) + mset (concat ((f_sinks s)[i := rest])) = mset (concat sources)"
  proof -
    have "mset (f_out s) + mset (concat (f_sinks s)) = mset (concat sources)"
      using inv by (simp add: fan_inv_def)
    moreover have "mset (concat (f_sinks s)) = mset (concat ((f_sinks s)[i := rest])) + {#x#}"
      using i(1) e by (rule mset_concat_update)
    ultimately show ?thesis by simp
  qed
  have b: "\<forall>j<length sources. \<not> f_passing s ! j \<longrightarrow> (f_sinks s)[i := rest] ! j = []"
  proof (intro allI impI)
    fix j assume j: "j < length sources" and np: "\<not> f_passing s ! j"
    with p have "j \<noteq> i" by auto
    moreover from inv j np have "f_sinks s ! j = []" by (simp add: fan_inv_def)
    ultimately show "(f_sinks s)[i := rest] ! j = []" by simp
  qed
  from len a m b nc show ?thesis by (simp add: fan_inv_def)
qed

lemma fan_inv_step:
  assumes inv: "fan_inv sources s" and u: "uncancelled a"
  shows "fan_inv sources (fan_step s a)"
proof (cases a)
  case Wait
  with inv show ?thesis by (auto simp: fan_inv_def)
next
  case (Pass i cancelled)
  with u have nc: "\<not> cancelled" by simp
  show ?thesis
  proof (cases "i < length (f_sinks s) \<and> i < length (f_passing s) \<and> f_passing s ! i")
    case False
    with Pass inv show ?thesis by auto
  next
    case True
    show ?thesis
    proof (cases "f_sinks s ! i")
      case Nil
      with True Pass fan_inv_return [OF inv, of i] show ?thesis by simp
    next
      case (Cons x rest)
      with True Pass nc fan_inv_forward [OF inv, of i x rest] show ?thesis by simp
    qed
  qed
qed

lemma fan_inv_run:
  "fan_inv sources s \<Longrightarrow> \<forall>a \<in> set schedule. uncancelled a \<Longrightarrow>
     fan_inv sources (fan_Write schedule s)"
  unfolding fan_Write_def
proof (induction schedule arbitrary: s)
  case Nil
  then show ?case by simp
next
  case (Cons a schedule)
  from Cons.prems have "fan_inv sources (fan_step s a)" by (simp add: fan_inv_step)
  from Cons.IH [OF this] Cons.prems(2) show ?case by simp
qed

text \<open>
  Such runs exist for every list of nested producers: letting each \<open>pass\<close> goroutine
  drain its channel in turn and return brings \<open>fan.Write\<close> to the close of \<open>sink\<close>.
\<close>

lemma fan_drain:
  "f_sinks s ! i = xs \<Longrightarrow> i < length (f_sinks s) \<Longrightarrow> i < length (f_passing s) \<Longrightarrow>
   f_passing s ! i \<Longrightarrow>
     f_passing (foldl fan_step s (replicate (Suc (length xs)) (Pass i False))) =
       (f_passing s)[i := False] \<and>
     length (f_sinks (foldl fan_step s (replicate (Suc (length xs)) (Pass i False)))) =
       length (f_sinks s)"
proof (induction xs arbitrary: s)
  case Nil
  then show ?case by simp
next
  case (Cons x rest)
  let ?s1 = "s\<lparr>f_sinks := (f_sinks s)[i := rest], f_out := f_out s @ [x]\<rparr>"
  have step: "fan_step s (Pass i False) = ?s1" using Cons.prems by simp
  have "f_sinks ?s1 ! i = rest" "i < length (f_sinks ?s1)" "i < length (f_passing ?s1)"
    "f_passing ?s1 ! i"
    using Cons.prems by simp_all
  from Cons.IH [OF this]
  have "f_passing (foldl fan_step ?s1 (replicate (Suc (length rest)) (Pass i False))) =
          (f_passing s)[i := False] \<and>
        length (f_sinks (foldl fan_step ?s1 (replicate (Suc (length rest)) (Pass i False)))) =
          length (f_sinks s)"
    by simp
  moreover have "foldl fan_step s (replicate (Suc (length (x # rest))) (Pass i False)) =
      foldl fan_step ?s1 (replicate (Suc (length rest)) (Pass i False))"
    using step by (simp del: fan_step.simps)
  ultimately show ?case by (simp only:)
qed

lemma filter_update_False:
  "i < length xs \<Longrightarrow> xs ! i \<Longrightarrow>
     length (filter id (xs[i := False])) < length (filter id xs)"
proof (induction xs arbitrary: i)
  case Nil
  then show ?case by simp
next
  case (Cons x xs)
  show ?case
  proof (cases i)
    case 0
    with Cons.prems show ?thesis by simp
  next
    case (Suc j)
    with Cons.prems have "j < length xs" "xs ! j" by simp_all
    from Cons.IH [OF this] Suc show ?thesis by simp
  qed
qed

lemma fan_all_return:
  "length (f_sinks s) = length (f_passing s) \<Longrightarrow>
     \<exists>schedule. (\<forall>a \<in> set schedule. uncancelled a) \<and>
        True \<notin> set (f_passing (foldl fan_step s schedule))"
proof (induction "length (filter id (f_passing s))" arbitrary: s rule: less_induct)
  case less
  show ?case
  proof (cases "True \<in> set (f_passing s)")
    case False
    have "(\<forall>a \<in> set ([] :: fan_action list). uncancelled a) \<and>
        True \<notin> set (f_passing (foldl fan_step s []))"
      using False by simp
    then show ?thesis by blast
  next
    case True
    then obtain i where i: "i < length (f_passing s)" "f_passing s ! i"
      by (auto simp: in_set_conv_nth)
    let ?d = "replicate (Suc (length (f_sinks s ! i))) (Pass i False)"
    let ?s1 = "foldl fan_step s ?d"
    from i less.prems have il: "i < length (f_sinks s)" by simp
    from fan_drain [OF refl il i]
    have p1: "f_passing ?s1 = (f_passing s)[i := False]"
      and l1: "length (f_sinks ?s1) = length (f_sinks s)"
      by simp_all
    have m: "length (filter id (f_passing ?s1)) < length (filter id (f_passing s))"
      unfolding p1 using i by (rule filter_update_False)
    have e: "length (f_sinks ?s1) = length (f_passing ?s1)"
      unfolding p1 l1 using less.prems by simp
    from less.hyps [OF m e] obtain rest where
      r: "\<forall>a \<in> set rest. uncancelled a" "True \<notin> set (f_passing (foldl fan_step ?s1 rest))"
      by blast
    have "(\<forall>a \<in> set (?d @ rest). uncancelled a) \<and>
        True \<notin> set (f_passing (foldl fan_step s (?d @ rest)))"
      using r by (simp del: replicate_Suc)
    then show ?thesis by blast
  qed
qed

lemma fan_can_close:
  "\<exists>schedule. (\<forall>a \<in> set schedule. uncancelled a) \<and> f_closed (fan_Write schedule (Fan sources))"
proof -
  have "length (f_sinks (Fan sources)) = length (f_passing (Fan sources))"
    by (simp add: Fan_def)
  from fan_all_return [OF this] obtain sched where
    s: "\<forall>a \<in> set sched. uncancelled a"
       "True \<notin> set (f_passing (foldl fan_step (Fan sources) sched))"
    by blast
  have "(\<forall>a \<in> set (sched @ [Wait]). uncancelled a) \<and>
     f_closed (fan_Write (sched @ [Wait]) (Fan sources))"
    using s by (simp add: fan_Write_def)
  then show ?thesis by blast
qed

text \<open>
  C8. In every run of \<open>fan.Write\<close> over finite nested producers in which no \<open>pass\<close>
  goroutine sees a cancelled context, once the shared output is closed the Regions
  delivered on it are, as a multiset, exactly those of the nested producers together;
  each nested producer's Regions appear in the output in their own order; and every
  \<open>pass\<close> goroutine has returned.
\<close>

theorem C8_fan_in:
  assumes "\<forall>a \<in> set schedule. uncancelled a"
    and "f_closed (fan_Write schedule (Fan sources))"
  shows "mset (f_out (fan_Write schedule (Fan sources))) = mset (concat sources) \<and>
         (\<forall>i<length sources. subseq (sources ! i) (f_out (fan_Write schedule (Fan sources)))) \<and>
         True \<notin> set (f_passing (fan_Write schedule (Fan sources)))"
proof -
  let ?s = "fan_Write schedule (Fan sources)"
  have inv: "fan_inv sources ?s"
    using fan_inv_run [OF fan_inv_init assms(1)] .
  from inv assms(2) have np: "True \<notin> set (f_passing ?s)" by (simp add: fan_inv_def)
  have len: "length (f_sinks ?s) = length sources" "length (f_passing ?s) = length sources"
    using inv by (simp_all add: fan_inv_def)
  have empty: "\<forall>i<length sources. f_sinks ?s ! i = []"
  proof (intro allI impI)
    fix i assume i: "i < length sources"
    with len have "f_passing ?s ! i \<in> set (f_passing ?s)" by simp
    with np have "\<not> f_passing ?s ! i" by metis
    with inv i show "f_sinks ?s ! i = []" by (simp add: fan_inv_def)
  qed
  have c: "concat (f_sinks ?s) = []" using empty len by (simp add: concat_all_Nil)
  have m0: "mset (f_out ?s) + mset (concat (f_sinks ?s)) = mset (concat sources)"
    using inv by (simp add: fan_inv_def)
  have m: "mset (f_out ?s) = mset (concat sources)"
    using m0 unfolding c by simp
  have s: "\<forall>i<length sources. subseq (sources ! i) (f_out ?s)"
  proof (intro allI impI)
    fix i assume i: "i < length sources"
    with inv obtain p where "sources ! i = p @ f_sinks ?s ! i" "subseq p (f_out ?s)"
      by (auto simp: fan_inv_def)
    with empty i show "subseq (sources ! i) (f_out ?s)" by simp
  qed
  from m s np show ?thesis by blast
qed


theorem C8_fan_in_witness:
  "uncancelled (Pass 0 False) \<and> uncancelled Wait \<and>
   f_closed (fan_Write [Pass 0 False, Pass 1 False, Pass 0 False, Pass 0 False, Pass 1 False, Wait]
     (Fan [[\<lparr>Data = [1], Off = 0\<rparr>, \<lparr>Data = [2], Off = 1\<rparr>], [\<lparr>Data = [9], Off = 50\<rparr>]])) \<and>
   f_out (fan_Write [Pass 0 False, Pass 1 False, Pass 0 False, Pass 0 False, Pass 1 False, Wait]
     (Fan [[\<lparr>Data = [1], Off = 0\<rparr>, \<lparr>Data = [2], Off = 1\<rparr>], [\<lparr>Data = [9], Off = 50\<rparr>]])) =
     [\<lparr>Data = [1], Off = 0\<rparr>, \<lparr>Data = [9], Off = 50\<rparr>, \<lparr>Data = [2], Off = 1\<rparr>] \<and>
   mset [\<lparr>Data = [1], Off = 0\<rparr>, \<lparr>Data = [9], Off = 50\<rparr>, \<lparr>Data = [2], Off = 1\<rparr>] =
     mset (concat [[\<lparr>Data = [1], Off = 0\<rparr>, \<lparr>Data = [2], Off = 1\<rparr>], [\<lparr>Data = [9], Off = 50\<rparr>]]) \<and>
   subseq [\<lparr>Data = [1], Off = 0\<rparr>, \<lparr>Data = [2], Off = 1\<rparr>]
     [\<lparr>Data = [1], Off = 0\<rparr>, \<lparr>Data = [9], Off = 50\<rparr>, \<lparr>Data = [2], Off = 1\<rparr>] \<and>
   subseq [\<lparr>Data = [9], Off = 50\<rparr>]
     [\<lparr>Data = [1], Off = 0\<rparr>, \<lparr>Data = [9], Off = 50\<rparr>, \<lparr>Data = [2], Off = 1\<rparr>]"
proof -
  let ?sched = "[Pass 0 False, Pass 1 False, Pass 0 False, Pass 0 False, Pass 1 False, Wait]"
  let ?srcs = "[[\<lparr>Data = [1], Off = 0\<rparr>, \<lparr>Data = [2], Off = 1\<rparr>], [\<lparr>Data = [9], Off = 50\<rparr>]]"
  have u: "\<forall>a \<in> set ?sched. uncancelled a" by simp
  have c: "f_closed (fan_Write ?sched (Fan ?srcs))"
    by (simp add: fan_Write_def Fan_def)
  have o: "f_out (fan_Write ?sched (Fan ?srcs)) =
     [\<lparr>Data = [1], Off = 0\<rparr>, \<lparr>Data = [9], Off = 50\<rparr>, \<lparr>Data = [2], Off = 1\<rparr>]"
    by (simp add: fan_Write_def Fan_def)
  note th = C8_fan_in [OF u c]
  from th have m: "mset (f_out (fan_Write ?sched (Fan ?srcs))) = mset (concat ?srcs)"
    by (rule conjunct1)
  from th have all: "\<forall>i<length ?srcs. subseq (?srcs ! i) (f_out (fan_Write ?sched (Fan ?srcs)))"
    by blast
  have s0: "subseq (?srcs ! 0) (f_out (fan_Write ?sched (Fan ?srcs)))"
    using all [rule_format, of 0] by simp
  have s1: "subseq (?srcs ! 1) (f_out (fan_Write ?sched (Fan ?srcs)))"
    using all [rule_format, of 1] by simp
  from m s0 s1 c show ?thesis unfolding o by simp
qed

end
